theory Spec2Isabelle
  imports
    Main
    "HOL-Library.Char_ord"
    "HOL-Library.List_Lexorder"
    "HOL-Library.Product_Lexorder"
    "HOL-Library.AList"
begin

section \<open>The data model of \<^verbatim>\<open>model.py\<close>\<close>

text \<open>
  \<^verbatim>\<open>GenericItem\<close> is the superclass of \<^verbatim>\<open>Problem\<close> and \<^verbatim>\<open>PickleMappingEntry\<close>; its
  class attributes are the fields and their defaults. A \<^verbatim>\<open>Problem\<close> adds \<^verbatim>\<open>bodies\<close>,
  a \<^verbatim>\<open>PickleMappingEntry\<close> adds no field. Functions written for
  \<open>'a GenericItem_scheme\<close> apply to both, as the inherited methods do.

  Strings are lists of characters and are compared as Python compares \<^verbatim>\<open>str\<close>:
  character by character on the code, a proper prefix being smaller (the linear order of
  \<open>List_Lexorder\<close> over \<open>Char_ord\<close>). Python's integers are \<open>int\<close>. The field
  \<open>hardness\<close> is \<open>None\<close> for every value whose type is not \<^verbatim>\<open>int\<close>: the code only asks
  \<^verbatim>\<open>type(self.hardness) == int\<close>.
\<close>

record GenericItem =
  desc :: string
  source :: string
  tags :: "string list"
  path :: string
  i :: "int option"
  author :: "string option"
  hardness :: "int option"
  url :: "string option"

record Problem = GenericItem +
  bodies :: "string list"

type_synonym PickleMappingEntry = GenericItem

text \<open>\<^verbatim>\<open>GenericItem.n\<close>: the externally visible number of a cached item.\<close>

definition n :: "'a GenericItem_scheme \<Rightarrow> int option" where
  "n e = (case i e of Some k \<Rightarrow> Some (k + 1) | None \<Rightarrow> None)"

text \<open>
  \<^verbatim>\<open>GenericItem.sortvalue\<close>: the index of the first tag of \<^verbatim>\<open>SORT_TAGS\<close> that the item
  carries, \<open>-1\<close> when it carries none. \<^verbatim>\<open>SORT_TAGS\<close> comes from the configuration module
  \<^verbatim>\<open>rc\<close> and is a parameter here.
\<close>

fun sortvalue_from :: "int \<Rightarrow> string list \<Rightarrow> string list \<Rightarrow> int" where
  "sortvalue_from k [] ts = -1"
| "sortvalue_from k (d # ds) ts = (if d \<in> set ts then k else sortvalue_from (k + 1) ds ts)"

definition sortvalue :: "string list \<Rightarrow> 'a GenericItem_scheme \<Rightarrow> int" where
  "sortvalue SORT_TAGS e = sortvalue_from 0 SORT_TAGS (tags e)"

fun sortstring_from :: "string list \<Rightarrow> string list \<Rightarrow> string" where
  "sortstring_from [] ts = ''NONE''"
| "sortstring_from (d # ds) ts = (if d \<in> set ts then d else sortstring_from ds ts)"

definition sortstring :: "string list \<Rightarrow> 'a GenericItem_scheme \<Rightarrow> string" where
  "sortstring SORT_TAGS e = sortstring_from SORT_TAGS (tags e)"

text \<open>\<^verbatim>\<open>GenericItem.sortkey\<close>, \<^verbatim>\<open>__eq__\<close> and \<^verbatim>\<open>__lt__\<close>: tuples compare lexicographically.\<close>

definition sortkey :: "string list \<Rightarrow> 'a GenericItem_scheme \<Rightarrow> int \<times> int \<times> string" where
  "sortkey SORT_TAGS e =
     (case hardness e of
        Some h \<Rightarrow> (sortvalue SORT_TAGS e, h, source e)
      | None \<Rightarrow> (sortvalue SORT_TAGS e, -1, source e))"

definition item_eq :: "string list \<Rightarrow> 'a GenericItem_scheme \<Rightarrow> 'b GenericItem_scheme \<Rightarrow> bool" where
  "item_eq SORT_TAGS a b = (sortkey SORT_TAGS a = sortkey SORT_TAGS b)"

definition item_lt :: "string list \<Rightarrow> 'a GenericItem_scheme \<Rightarrow> 'b GenericItem_scheme \<Rightarrow> bool" where
  "item_lt SORT_TAGS a b = (sortkey SORT_TAGS a < sortkey SORT_TAGS b)"

text \<open>
  \<^verbatim>\<open>Problem.entry\<close>: the entry stored for a problem. The constructor of
  \<^verbatim>\<open>PickleMappingEntry\<close> skips the keywords that are \<^verbatim>\<open>None\<close>, which leaves the class
  default \<^verbatim>\<open>None\<close> in place.
\<close>

definition entry :: "Problem \<Rightarrow> PickleMappingEntry" where
  "entry p =
     \<lparr>desc = desc p, source = source p, tags = tags p, path = path p, i = i p,
      author = author p, hardness = hardness p, url = url p\<rparr>"

section \<open>Strings\<close>

text \<open>
  The string methods the search predicates use. Strings are taken to be ASCII text:
  \<^verbatim>\<open>lower\<close> and \<^verbatim>\<open>upper\<close> map the 26 letters and leave every other character alone,
  and \<^verbatim>\<open>strip\<close> knows the ASCII whitespace only. Python's case mapping and whitespace of
  the characters beyond ASCII are not modelled; the facts below about the search
  predicates hold for any case mapping, since they only compare its results.
\<close>

definition ascii_uppercase :: string where
  "ascii_uppercase = ''ABCDEFGHIJKLMNOPQRSTUVWXYZ''"

definition ascii_lowercase :: string where
  "ascii_lowercase = ''abcdefghijklmnopqrstuvwxyz''"

definition lower_char :: "char \<Rightarrow> char" where
  "lower_char c =
     (case map_of (zip ascii_uppercase ascii_lowercase) c of Some d \<Rightarrow> d | None \<Rightarrow> c)"

definition upper_char :: "char \<Rightarrow> char" where
  "upper_char c =
     (case map_of (zip ascii_lowercase ascii_uppercase) c of Some d \<Rightarrow> d | None \<Rightarrow> c)"

definition lower :: "string \<Rightarrow> string" where
  "lower s = map lower_char s"

definition upper :: "string \<Rightarrow> string" where
  "upper s = map upper_char s"

text \<open>\<^verbatim>\<open>s.startswith(p)\<close>, and \<^verbatim>\<open>a in b\<close> for two strings: \<open>a\<close> occurs in \<open>b\<close> as a substring.\<close>

definition startswith :: "string \<Rightarrow> string \<Rightarrow> bool" where
  "startswith s p = (take (length p) s = p)"

fun str_in :: "string \<Rightarrow> string \<Rightarrow> bool" where
  "str_in a [] = (a = [])"
| "str_in a (y # ys) = (startswith (y # ys) a \<or> str_in a ys)"

text \<open>
  \<^verbatim>\<open>s.strip()\<close> removes the leading and trailing whitespace; \<^verbatim>\<open>s.split(' ')\<close> cuts at
  every single space and keeps the empty pieces.
\<close>

definition whitespace :: string where
  "whitespace = [CHR 0x09, CHR 0x0A, CHR 0x0B, CHR 0x0C, CHR 0x0D,
                 CHR 0x1C, CHR 0x1D, CHR 0x1E, CHR 0x1F, CHR 0x20]"

definition strip :: "string \<Rightarrow> string" where
  "strip s = rev (dropWhile (\<lambda>c. c \<in> set whitespace) (rev (dropWhile (\<lambda>c. c \<in> set whitespace) s)))"

fun split :: "char \<Rightarrow> string \<Rightarrow> string list" where
  "split sep [] = [[]]"
| "split sep (c # cs) =
     (if c = sep then [] # split sep cs
      else (case split sep cs of [] \<Rightarrow> [[c]] | w # ws \<Rightarrow> (c # w) # ws))"

text \<open>The decimal digits of a natural number, as an f-string prints it.\<close>

function str_nat :: "nat \<Rightarrow> string" where
  "str_nat k = (if k < 10 then [''0123456789'' ! k] else str_nat (k div 10) @ [''0123456789'' ! (k mod 10)])"
  by pat_completeness auto
termination
  by (relation "measure id") auto

section \<open>Search predicates of an entry\<close>

text \<open>
  \<^verbatim>\<open>inferPUID\<close> is imported from the module \<^verbatim>\<open>puid\<close>, which is not among the sources; it
  is a parameter. It maps a source string to its normalised identifier, a string, so that
  \<^verbatim>\<open>term.upper() in inferPUID(self.source)\<close> is the substring test of two strings.
\<close>

definition hasTag :: "PickleMappingEntry \<Rightarrow> string \<Rightarrow> bool" where
  "hasTag e tag = (lower tag \<in> set (map lower (tags e)))"

definition blob :: "PickleMappingEntry \<Rightarrow> string" where
  "blob e =
     (case author e of
        None \<Rightarrow> source e @ '' '' @ desc e
      | Some a \<Rightarrow> (source e @ '' '' @ desc e) @ '' '' @ a)"

definition hasTerm :: "(string \<Rightarrow> string) \<Rightarrow> PickleMappingEntry \<Rightarrow> string \<Rightarrow> bool" where
  "hasTerm inferPUID e term =
     (str_in (lower term) (lower (blob e)) \<or> term \<in> set (tags e) \<or>
      str_in (upper term) (inferPUID (source e)))"

definition hasAuthor :: "PickleMappingEntry \<Rightarrow> string \<Rightarrow> bool" where
  "hasAuthor e name =
     (case author e of
        None \<Rightarrow> False
      | Some a \<Rightarrow> lower name \<in> set (split CHR '' '' (strip (lower a))))"

definition hasSource :: "PickleMappingEntry \<Rightarrow> string \<Rightarrow> bool" where
  "hasSource e src = str_in (lower src) (lower (source e))"

definition secret :: "PickleMappingEntry \<Rightarrow> bool" where
  "secret e = (str_in ''SECRET'' (source e) \<or> ''secret'' \<in> set (tags e))"

section \<open>The two stores\<close>

text \<open>
  Every raise of the code is a value: a function that can raise returns \<open>error + 'a\<close>,
  with \<open>Inl\<close> for the exception.
\<close>

datatype error = IndexError | KeyError | TypeError

text \<open>
  The Index is a \<^verbatim>\<open>dict\<close> from source strings to entries. A \<^verbatim>\<open>dict\<close> keeps its keys in
  insertion order, and \<^verbatim>\<open>index.values()\<close> is read in that order, so the Index is an
  association list with pairwise distinct keys: \<^verbatim>\<open>d[k] = v\<close> overwrites in place or appends,
  \<^verbatim>\<open>del d[k]\<close> raises \<^verbatim>\<open>KeyError\<close> on a missing key. The Index is held by value: every
  operation of this module stores one object under one key and pickles the store when its
  session ends, so no object is stored under two keys.
\<close>

type_synonym pickleDictVonIndex = "(string \<times> PickleMappingEntry) list"

definition index_getitem :: "pickleDictVonIndex \<Rightarrow> string \<Rightarrow> error + PickleMappingEntry" where
  "index_getitem d key = (case map_of d key of Some v \<Rightarrow> Inr v | None \<Rightarrow> Inl KeyError)"

definition index_setitem :: "pickleDictVonIndex \<Rightarrow> string \<Rightarrow> PickleMappingEntry \<Rightarrow> pickleDictVonIndex" where
  "index_setitem d key v = AList.update key v d"

definition index_delitem :: "pickleDictVonIndex \<Rightarrow> string \<Rightarrow> error + pickleDictVonIndex" where
  "index_delitem d key = (if key \<in> set (map fst d) then Inr (AList.delete key d) else Inl KeyError)"

text \<open>
  The Cache is a \<^verbatim>\<open>list\<close> of entry objects, and \<^verbatim>\<open>pickleListVonCache.set\<close> assigns to
  the field \<^verbatim>\<open>i\<close> of the objects of the list it is given. An object that stands at two
  places of a list is one object, and pickling keeps that sharing. So the Cache is a list
  of references (\<open>store\<close>) into a memory of objects (\<open>objects\<close>); the memory also holds
  the objects a caller passes in.
\<close>

type_synonym addr = nat

record pickleListVonCache =
  objects :: "addr \<Rightarrow> PickleMappingEntry"
  store :: "addr list"

text \<open>The entries of the Cache, position by position, as a reader of the Cache sees them.\<close>

definition cache_entries :: "pickleListVonCache \<Rightarrow> PickleMappingEntry list" where
  "cache_entries c = map (objects c) (store c)"

text \<open>
  \<^verbatim>\<open>pickleObj.__getitem__\<close> on the list: Python counts a negative index from the end,
  and raises \<^verbatim>\<open>IndexError\<close> outside \<open>-L .. L-1\<close>; the handler raises it again.
\<close>

definition cache_getitem :: "pickleListVonCache \<Rightarrow> int \<Rightarrow> error + PickleMappingEntry" where
  "cache_getitem c idx =
     (let L = int (length (store c)) in
      if 0 \<le> idx \<and> idx < L then Inr (objects c (store c ! nat idx))
      else if - L \<le> idx \<and> idx < 0 then Inr (objects c (store c ! nat (L + idx)))
      else Inl IndexError)"

text \<open>
  \<^verbatim>\<open>cache.values()\<close> is the method of \<^verbatim>\<open>collections.abc.Mapping\<close>: it iterates the
  mapping and looks every key up with \<^verbatim>\<open>__getitem__\<close>. The iterator of the Cache yields
  the entries of the list, and indexing a list with an entry raises \<^verbatim>\<open>TypeError\<close>, which
  \<^verbatim>\<open>__getitem__\<close> does not handle. Only the empty Cache has values.
\<close>

definition cache_values :: "pickleListVonCache \<Rightarrow> error + addr list" where
  "cache_values c = (case store c of [] \<Rightarrow> Inr [] | a # as \<Rightarrow> Inl TypeError)"

text \<open>
  \<^verbatim>\<open>pickleListVonCache.set\<close>: the loop \<^verbatim>\<open>store[i].i = i\<close> over the positions of the list,
  then the list becomes the store.
\<close>

fun set_loop :: "nat \<Rightarrow> addr list \<Rightarrow> (addr \<Rightarrow> PickleMappingEntry) \<Rightarrow> (addr \<Rightarrow> PickleMappingEntry)" where
  "set_loop k [] h = h"
| "set_loop k (a # as) h = set_loop (Suc k) as (h(a := (h a)\<lparr>i := Some (int k)\<rparr>))"

definition cache_set :: "(addr \<Rightarrow> PickleMappingEntry) \<Rightarrow> addr list \<Rightarrow> pickleListVonCache" where
  "cache_set h st = \<lparr>objects = set_loop 0 st h, store = st\<rparr>"

text \<open>
  \<^verbatim>\<open>setCache\<close>, \<^verbatim>\<open>augmentCache\<close> and \<^verbatim>\<open>clearCache\<close>. The entries passed in are
  references into the memory \<open>h\<close> of the caller, respectively into the memory of the
  opened Cache.
\<close>

definition setCache :: "(addr \<Rightarrow> PickleMappingEntry) \<Rightarrow> addr list \<Rightarrow> pickleListVonCache" where
  "setCache h entries = cache_set h entries"

definition augmentCache :: "pickleListVonCache \<Rightarrow> addr list \<Rightarrow> pickleListVonCache" where
  "augmentCache c entries = cache_set (objects c) (store c @ entries)"

definition clearCache :: "pickleListVonCache \<Rightarrow> pickleListVonCache" where
  "clearCache c = cache_set (objects c) []"

definition getEntryByCacheNum :: "pickleListVonCache \<Rightarrow> int \<Rightarrow> error + PickleMappingEntry" where
  "getEntryByCacheNum c num = cache_getitem c (num - 1)"

definition getEntryBySource :: "pickleDictVonIndex \<Rightarrow> string \<Rightarrow> PickleMappingEntry option" where
  "getEntryBySource d src = map_of d src"

text \<open>
  The position invariant of the Cache: the position fields of its entries, read in order,
  are \<open>0, 1, \<dots>, L - 1\<close>.
\<close>

definition cache_numbered :: "pickleListVonCache \<Rightarrow> bool" where
  "cache_numbered c = (map i (cache_entries c) = map (\<lambda>p. Some (int p)) [0..<length (store c)])"

text \<open>The persistent state: the Index file and the Cache file.\<close>

record von =
  index :: pickleDictVonIndex
  cache :: pickleListVonCache

section \<open>Search\<close>

text \<open>The keyword arguments of \<^verbatim>\<open>runSearch\<close>, and their defaults.\<close>

record query =
  terms :: "string list"
  tags_q :: "string list"
  sources :: "string list"
  authors :: "string list"
  path_q :: string
  refine :: bool
  alph_sort :: bool
  in_otis :: "bool option"

definition query_default :: query where
  "query_default =
     \<lparr>terms = [], tags_q = [], sources = [], authors = [], path_q = [],
      refine = False, alph_sort = False, in_otis = None\<rparr>"

text \<open>
  The usage feed: \<open>OTIS\<close> is \<open>None\<close> when \<^verbatim>\<open>OTIS_EVIL_JSON_PATH\<close> is \<^verbatim>\<open>None\<close>, and
  otherwise the values of the JSON object read from that path. It is consulted only when
  \<^verbatim>\<open>in_otis\<close> is given.
\<close>

definition otis_used_sources :: "string list option \<Rightarrow> query \<Rightarrow> string list option" where
  "otis_used_sources OTIS q = (if in_otis q \<noteq> None \<and> OTIS \<noteq> None then OTIS else None)"

definition used :: "string list \<Rightarrow> PickleMappingEntry \<Rightarrow> bool" where
  "used feed e = (source e \<in> set feed \<or> hasTag e ''waltz'')"

definition matches ::
  "(string \<Rightarrow> string) \<Rightarrow> string list option \<Rightarrow> query \<Rightarrow> PickleMappingEntry \<Rightarrow> bool" where
  "matches inferPUID feed q e =
     (if (case feed of
            None \<Rightarrow> False
          | Some f \<Rightarrow>
              (if used f e \<and> in_otis q = Some False then True
               else if \<not> used f e \<and> in_otis q = Some True then True
               else False))
      then False
      else (list_all (hasTag e) (tags_q q) \<and> list_all (hasTerm inferPUID e) (terms q) \<and>
            list_all (hasSource e) (sources q) \<and> list_all (hasAuthor e) (authors q) \<and>
            startswith (path e) (path_q q)))"

text \<open>
  Opening the Index unpickles one object per key: object number \<open>a\<close> holds the \<open>a\<close>-th
  value, and \<^verbatim>\<open>index.values()\<close> are these objects in the order of the keys.
\<close>

definition PickleMappingEntry_default :: PickleMappingEntry where
  "PickleMappingEntry_default =
     \<lparr>desc = [], source = [], tags = [], path = [], i = None,
      author = None, hardness = None, url = None\<rparr>"

definition index_objects :: "pickleDictVonIndex \<Rightarrow> addr \<Rightarrow> PickleMappingEntry" where
  "index_objects d a = (if a < length d then snd (d ! a) else PickleMappingEntry_default)"

definition index_values :: "pickleDictVonIndex \<Rightarrow> addr list" where
  "index_values d = [0..<length d]"

text \<open>
  \<^verbatim>\<open>runSearch\<close>. \<^verbatim>\<open>list.sort\<close> is a stable sort: with a key it compares the keys, without
  one it compares the entries by \<^verbatim>\<open>__lt__\<close>, which compares their \<^verbatim>\<open>sortkey\<close>. The
  function returns the list it has sorted, whose objects \<^verbatim>\<open>setCache\<close> has renumbered when
  the list is not empty, and the new state.
\<close>

definition runSearch ::
  "string list \<Rightarrow> (string \<Rightarrow> string) \<Rightarrow> string list option \<Rightarrow> query \<Rightarrow> von \<Rightarrow>
     error + (PickleMappingEntry list \<times> von)" where
  "runSearch SORT_TAGS inferPUID OTIS q st =
     (let feed = otis_used_sources OTIS q;
          h = (if \<not> refine q then index_objects (index st) else objects (cache st))
      in case (if \<not> refine q then Inr (index_values (index st)) else cache_values (cache st)) of
           Inl err \<Rightarrow> Inl err
         | Inr vals \<Rightarrow>
             (let result = filter (\<lambda>a. matches inferPUID feed q (h a)) vals;
                  result = (if alph_sort q then sort_key (\<lambda>a. source (h a)) result
                            else sort_key (\<lambda>a. sortkey SORT_TAGS (h a)) result)
              in if 0 < length result
                 then (let c = setCache h result in Inr (cache_entries c, st\<lparr>cache := c\<rparr>))
                 else Inr ([], st)))"

text \<open>
  The list that \<^verbatim>\<open>runSearch\<close> holds in \<^verbatim>\<open>result\<close> after sorting when it scans the full
  Index: the objects of the Index that match, in the requested order.
\<close>

definition found :: "string list \<Rightarrow> (string \<Rightarrow> string) \<Rightarrow> string list option \<Rightarrow> query \<Rightarrow> von \<Rightarrow> addr list" where
  "found S P OTIS q st =
     (let h = index_objects (index st);
          r = filter (\<lambda>a. matches P (otis_used_sources OTIS q) q (h a)) (index_values (index st))
      in if alph_sort q then sort_key (\<lambda>a. source (h a)) r else sort_key (\<lambda>a. sortkey S (h a)) r)"

section \<open>Writing the Index\<close>

definition addEntryToIndex :: "PickleMappingEntry \<Rightarrow> von \<Rightarrow> von" where
  "addEntryToIndex e st = st\<lparr>index := index_setitem (index st) (source e) e\<rparr>"

definition addProblemToIndex :: "Problem \<Rightarrow> von \<Rightarrow> error + (PickleMappingEntry \<times> von)" where
  "addProblemToIndex p st =
     (let d = index_setitem (index st) (source p) (entry p)
      in case index_getitem d (source p) of
           Inl err \<Rightarrow> Inl err
         | Inr e \<Rightarrow> Inr (e, st\<lparr>index := d\<rparr>))"

definition setEntireIndex :: "pickleDictVonIndex \<Rightarrow> von \<Rightarrow> von" where
  "setEntireIndex d st = st\<lparr>index := d\<rparr>"

text \<open>
  \<^verbatim>\<open>updateEntryByProblem\<close>. The entry made from the problem is a new object, at an
  address that no reference of the Cache holds. The Index file is written when its
  session ends, before the loop over the Cache stamps the position on the new object; the
  function returns that object as it is at the end. A \<^verbatim>\<open>KeyError\<close> of the deletion leaves
  both files as they were.
\<close>

definition new_object :: "addr list \<Rightarrow> addr" where
  "new_object st = Suc (fold max st 0)"

fun find_source :: "(addr \<Rightarrow> PickleMappingEntry) \<Rightarrow> string \<Rightarrow> nat \<Rightarrow> addr list \<Rightarrow> nat option" where
  "find_source h s k [] = None"
| "find_source h s k (a # as) = (if source (h a) = s then Some k else find_source h s (Suc k) as)"

definition update_cache :: "string \<Rightarrow> PickleMappingEntry \<Rightarrow> pickleListVonCache \<Rightarrow> pickleListVonCache" where
  "update_cache old_source new_entry c =
     (let a = new_object (store c) in
      case find_source (objects c) old_source 0 (store c) of
        Some k \<Rightarrow>
          \<lparr>objects = (objects c)(a := new_entry\<lparr>i := Some (int k)\<rparr>), store = (store c)[k := a]\<rparr>
      | None \<Rightarrow> cache_set ((objects c)(a := new_entry)) (store c @ [a]))"

definition updateEntryByProblem ::
  "PickleMappingEntry \<Rightarrow> Problem \<Rightarrow> von \<Rightarrow> error + (PickleMappingEntry \<times> von)" where
  "updateEntryByProblem old_entry new_problem st =
     (let new_entry = entry (new_problem\<lparr>i := i old_entry\<rparr>)
      in case (if source old_entry \<noteq> source new_entry
               then index_delitem (index st) (source old_entry) else Inr (index st)) of
           Inl err \<Rightarrow> Inl err
         | Inr d \<Rightarrow>
             (let d = index_setitem d (source new_entry) new_entry;
                  c = update_cache (source old_entry) new_entry (cache st)
              in Inr (objects c (new_object (store (cache st))), \<lparr>index = d, cache = c\<rparr>)))"

text \<open>
  \<^verbatim>\<open>rebuildIndex\<close>. The problems found on disk (\<^verbatim>\<open>getAllProblems\<close>) and the random
  numbers are parameters: \<open>rnd k\<close> decides the \<open>k\<close>-th call of
  \<^verbatim>\<open>random.randrange(10**6, 10**7)\<close>. The messages given to \<^verbatim>\<open>view.error\<close> are collected
  in a list.
\<close>

definition randrange :: "nat \<Rightarrow> nat \<Rightarrow> nat \<Rightarrow> nat" where
  "randrange lo hi r = lo + r mod (hi - lo)"

definition fake_source :: "nat \<Rightarrow> string" where
  "fake_source r = ''DUPLICATE '' @ str_nat (randrange (10 ^ 6) (10 ^ 7) r)"

fun rebuild_loop ::
  "(nat \<Rightarrow> nat) \<Rightarrow> nat \<Rightarrow> Problem list \<Rightarrow> pickleDictVonIndex \<Rightarrow> string list \<Rightarrow>
     pickleDictVonIndex \<times> string list" where
  "rebuild_loop rnd k [] d errors = (d, errors)"
| "rebuild_loop rnd k (p # ps) d errors =
     (if source p \<in> set (map fst d)
      then (let f = fake_source (rnd k);
                msg = source p @ '' is being repeated, replacing with '' @ f;
                p = p\<lparr>source := f\<rparr>
            in rebuild_loop rnd (Suc k) ps (index_setitem d (source p) (entry p)) (errors @ [msg]))
      else rebuild_loop rnd k ps (index_setitem d (source p) (entry p)) errors)"

definition rebuildIndex :: "(nat \<Rightarrow> nat) \<Rightarrow> Problem list \<Rightarrow> von \<Rightarrow> von \<times> string list" where
  "rebuildIndex rnd problems st =
     (case rebuild_loop rnd 0 problems [] [] of (d, errors) \<Rightarrow> (setEntireIndex d st, errors))"

section \<open>The invariant of the Index\<close>

text \<open>
  The Index is well formed when its keys are pairwise distinct and every entry is stored
  under its own source. \<open>reachable\<close> holds of the states that the operations of the
  module produce from an empty Index: the four operations that write the Index, and any
  change of the Cache.
\<close>

definition index_ok :: "pickleDictVonIndex \<Rightarrow> bool" where
  "index_ok d = (distinct (map fst d) \<and> list_all (\<lambda>(k, v). source v = k) d)"

inductive reachable :: "von \<Rightarrow> bool" where
  initial: "reachable \<lparr>index = [], cache = c\<rparr>"
| add_entry: "reachable st \<Longrightarrow> reachable (addEntryToIndex v st)"
| add_problem: "reachable st \<Longrightarrow> addProblemToIndex p st = Inr (v, st') \<Longrightarrow> reachable st'"
| update_entry:
    "reachable st \<Longrightarrow> updateEntryByProblem old_entry new_problem st = Inr (v, st') \<Longrightarrow>
     reachable st'"
| rebuild: "reachable st \<Longrightarrow> rebuildIndex rnd problems st = (st', errors) \<Longrightarrow> reachable st'"
| cache_written: "reachable st \<Longrightarrow> reachable (st\<lparr>cache := c\<rparr>)"

declare str_nat.simps [simp del]

section \<open>Example data\<close>

text \<open>
  Concrete inputs for the examples below: a tag priority list, some entries, and a sample
  identifier normalisation (the letters and digits of the source, in upper case) standing
  for \<^verbatim>\<open>inferPUID\<close>.
\<close>

definition ex_SORT_TAGS :: "string list" where
  "ex_SORT_TAGS = [''algebra'', ''combo'', ''geo'']"

definition ex_usamo :: PickleMappingEntry where
  "ex_usamo =
     \<lparr>desc = ''Fiendish inequality'', source = ''USAMO 2000/6'', tags = [''algebra'', ''nice''],
      path = ''usamo/2000-6.tex'', i = None, author = Some ''Gheorghita Zbaganu'',
      hardness = Some 30, url = None\<rparr>"

definition ex_twin :: PickleMappingEntry where
  "ex_twin =
     \<lparr>desc = ''Another text'', source = ''USAMO 2000/6'', tags = [''trivial'', ''algebra''],
      path = ''copy.tex'', i = Some 4, author = None,
      hardness = Some 30, url = Some ''http://example.org''\<rparr>"

definition ex_unrated :: PickleMappingEntry where
  "ex_unrated =
     \<lparr>desc = ''Warmup'', source = ''ZZZ 1'', tags = [''algebra''],
      path = ''zzz/1.tex'', i = None, author = None, hardness = None, url = None\<rparr>"

definition ex_negative :: PickleMappingEntry where
  "ex_negative =
     \<lparr>desc = ''Joke'', source = ''AAA 1'', tags = [''algebra''],
      path = ''aaa/1.tex'', i = None, author = None, hardness = Some (- 2), url = None\<rparr>"

definition alnum :: string where
  "alnum = ascii_uppercase @ ''0123456789''"

definition inferPUID_sample :: "string \<Rightarrow> string" where
  "inferPUID_sample s = filter (\<lambda>c. c \<in> set alnum) (upper s)"

definition ex_objects :: "addr \<Rightarrow> PickleMappingEntry" where
  "ex_objects a = (if a = 0 then ex_usamo else if a = 1 then ex_unrated else ex_negative)"

definition ex_cache :: pickleListVonCache where
  "ex_cache = cache_set ex_objects [0, 1]"

definition ex_problem :: Problem where
  "ex_problem =
     \<lparr>desc = ''Edited text'', source = ''USAMO 2000/6'', tags = [''algebra''],
      path = ''usamo/2000-6.tex'', i = None, author = None, hardness = Some 25, url = None,
      bodies = [''Prove it.'', ''Solution.'']\<rparr>"

definition ex_state :: von where
  "ex_state =
     \<lparr>index = [(''USAMO 2000/6'', ex_usamo), (''ZZZ 1'', ex_unrated)], cache = ex_cache\<rparr>"

definition ex_empty :: von where
  "ex_empty = \<lparr>index = [], cache = \<lparr>objects = ex_objects, store = []\<rparr>\<rparr>"

definition ex_stale :: von where
  "ex_stale = \<lparr>index = [], cache = ex_cache\<rparr>"

definition rnd_zero :: "nat \<Rightarrow> nat" where
  "rnd_zero k = 0"

definition ex_doc_a :: Problem where
  "ex_doc_a =
     \<lparr>desc = ''First'', source = ''DUPLICATE 1000000'', tags = [], path = ''a.tex'', i = None,
      author = None, hardness = None, url = None, bodies = [''A'']\<rparr>"

definition ex_doc_b :: Problem where
  "ex_doc_b =
     \<lparr>desc = ''Second'', source = ''X 1'', tags = [], path = ''b.tex'', i = None,
      author = None, hardness = None, url = None, bodies = [''B'']\<rparr>"

definition ex_doc_c :: Problem where
  "ex_doc_c =
     \<lparr>desc = ''Third'', source = ''X 1'', tags = [], path = ''c.tex'', i = None,
      author = None, hardness = None, url = None, bodies = [''C'']\<rparr>"

definition ex_X1 :: PickleMappingEntry where
  "ex_X1 =
     \<lparr>desc = [], source = ''X1'', tags = [''algebra''], path = ''x1.tex'', i = None,
      author = None, hardness = Some 5, url = None\<rparr>"

definition ex_X2 :: PickleMappingEntry where
  "ex_X2 =
     \<lparr>desc = [], source = ''X2'', tags = [''combo''], path = ''x2.tex'', i = None,
      author = None, hardness = Some 2, url = None\<rparr>"

definition ex_scenario :: von where
  "ex_scenario = \<lparr>index = [(''X1'', ex_X1), (''X2'', ex_X2)], cache = ex_cache\<rparr>"

definition ex_query :: query where
  "ex_query = query_default\<lparr>tags_q := [''algebra'']\<rparr>"

definition ex_refine :: query where
  "ex_refine = query_default\<lparr>refine := True\<rparr>"

section \<open>Evaluation and auxiliary facts\<close>

lemmas str_eval =
  lower_def upper_def lower_char_def upper_char_def ascii_uppercase_def ascii_lowercase_def
  startswith_def

lemmas ex_defs = ex_SORT_TAGS_def ex_usamo_def ex_twin_def ex_unrated_def ex_negative_def

lemma less_triple:
  "((a::int, b::int, c::string) < (a', b', c')) =
     (a < a' \<or> a = a' \<and> (b < b' \<or> b = b' \<and> c < c'))"
  by (auto simp: less_prod_def less_eq_prod_def)

section \<open>The ordering of items\<close>

text \<open>
  C9 (as amended). The sentinel that stands for an absent hardness in the ordering key is
  \<open>-1\<close>, which is below every hardness that is not negative: of two items in the same sort
  bucket, one with no integer hardness and one whose hardness is an integer \<open>h \<ge> 0\<close>, the
  first is smaller by \<^verbatim>\<open>__lt__\<close> and the second is not smaller than the first, so the
  item without hardness never sorts after the other.
\<close>

theorem absent_hardness_below_nonnegative:
  assumes "sortvalue S a = sortvalue S b"
    and "hardness a = None"
    and "hardness b = Some h"
    and "0 \<le> h"
  shows "item_lt S a b \<and> \<not> item_lt S b a"
  using assms by (simp add: item_lt_def sortkey_def less_triple)

theorem absent_hardness_below_nonnegative_witness:
  "sortvalue ex_SORT_TAGS ex_unrated = sortvalue ex_SORT_TAGS ex_usamo \<and>
   hardness ex_unrated = None \<and> hardness ex_usamo = Some 30 \<and>
   item_lt ex_SORT_TAGS ex_unrated ex_usamo \<and> \<not> item_lt ex_SORT_TAGS ex_usamo ex_unrated"
proof -
  have h1: "sortvalue ex_SORT_TAGS ex_unrated = sortvalue ex_SORT_TAGS ex_usamo"
    by (simp add: sortvalue_def ex_defs)
  have h2: "hardness ex_unrated = None"
    by (simp add: ex_defs)
  have h3: "hardness ex_usamo = Some 30"
    by (simp add: ex_defs)
  from absent_hardness_below_nonnegative [OF h1 h2 h3] h1 h2 h3 show ?thesis
    by simp
qed

text \<open>
  The claim as stated, for any integer hardness, fails for a negative one: in the same
  bucket the item of hardness \<open>-2\<close> is smaller than the item without hardness, which
  therefore sorts after it.
\<close>

theorem absent_hardness_after_negative:
  "sortvalue ex_SORT_TAGS ex_unrated = sortvalue ex_SORT_TAGS ex_negative \<and>
   hardness ex_unrated = None \<and> hardness ex_negative = Some (- 2) \<and>
   item_lt ex_SORT_TAGS ex_negative ex_unrated \<and>
   \<not> item_lt ex_SORT_TAGS ex_unrated ex_negative"
  by (simp add: item_lt_def sortkey_def sortvalue_def ex_defs less_triple)

lemma sortvalue_from_cong:
  "\<forall>d\<in>set S. (d \<in> set ts) = (d \<in> set ts') \<Longrightarrow> sortvalue_from k S ts = sortvalue_from k S ts'"
  by (induction S arbitrary: k) simp_all

lemma sortkey_components:
  "(sortkey S a = sortkey S b) =
     (sortvalue S a = sortvalue S b \<and>
      (case hardness a of Some h \<Rightarrow> h | None \<Rightarrow> - 1) = (case hardness b of Some h \<Rightarrow> h | None \<Rightarrow> - 1) \<and>
      source a = source b)"
  by (simp add: sortkey_def split: option.splits)

text \<open>
  C10. \<^verbatim>\<open>==\<close> on items (entries or problems) is decided by the ordering key and by
  nothing else: two items are equal exactly when their ordering keys are equal, that is,
  when they agree on the sort bucket, on the hardness (or its sentinel) and on the source.
  In particular an item stays equal to itself when its description, author, url, path and
  cached position change in any way and its tags change outside the priority list.
\<close>

theorem eq_determined_by_sortkey:
  "item_eq S a b = (sortkey S a = sortkey S b) \<and>
   (sortkey S a = sortkey S b) =
     (sortvalue S a = sortvalue S b \<and>
      (case hardness a of Some h \<Rightarrow> h | None \<Rightarrow> - 1) = (case hardness b of Some h \<Rightarrow> h | None \<Rightarrow> - 1) \<and>
      source a = source b) \<and>
   ((\<forall>d\<in>set S. (d \<in> set ts) = (d \<in> set (tags a))) \<longrightarrow>
      item_eq S a (a\<lparr>desc := de, author := au, url := u, path := pa, i := k, tags := ts\<rparr>))"
proof (intro conjI impI)
  show "item_eq S a b = (sortkey S a = sortkey S b)"
    by (simp add: item_eq_def)
  show "(sortkey S a = sortkey S b) =
     (sortvalue S a = sortvalue S b \<and>
      (case hardness a of Some h \<Rightarrow> h | None \<Rightarrow> - 1) = (case hardness b of Some h \<Rightarrow> h | None \<Rightarrow> - 1) \<and>
      source a = source b)"
    by (rule sortkey_components)
next
  assume "\<forall>d\<in>set S. (d \<in> set ts) = (d \<in> set (tags a))"
  then have "sortvalue_from 0 S ts = sortvalue_from 0 S (tags a)"
    by (rule sortvalue_from_cong)
  then show "item_eq S a (a\<lparr>desc := de, author := au, url := u, path := pa, i := k, tags := ts\<rparr>)"
    by (simp add: item_eq_def sortkey_def sortvalue_def split: option.splits)
qed

theorem eq_determined_by_sortkey_witness:
  "item_eq ex_SORT_TAGS ex_usamo ex_twin \<and> desc ex_usamo \<noteq> desc ex_twin \<and>
   author ex_usamo \<noteq> author ex_twin \<and> url ex_usamo \<noteq> url ex_twin \<and>
   path ex_usamo \<noteq> path ex_twin \<and> i ex_usamo \<noteq> i ex_twin \<and>
   tags ex_usamo \<noteq> tags ex_twin \<and>
   sortkey ex_SORT_TAGS ex_usamo \<noteq> sortkey ex_SORT_TAGS ex_unrated \<and>
   \<not> item_eq ex_SORT_TAGS ex_usamo ex_unrated"
proof -
  have h: "sortkey ex_SORT_TAGS ex_usamo = sortkey ex_SORT_TAGS ex_twin"
    by (simp add: sortkey_def sortvalue_def ex_defs)
  have g: "sortkey ex_SORT_TAGS ex_usamo \<noteq> sortkey ex_SORT_TAGS ex_unrated"
    by (simp add: sortkey_def sortvalue_def ex_defs)
  from eq_determined_by_sortkey [of ex_SORT_TAGS ex_usamo ex_twin] h
  have 1: "item_eq ex_SORT_TAGS ex_usamo ex_twin" by blast
  from eq_determined_by_sortkey [of ex_SORT_TAGS ex_usamo ex_unrated] g
  have 2: "\<not> item_eq ex_SORT_TAGS ex_usamo ex_unrated" by blast
  from 1 2 g show ?thesis
    by (simp add: ex_defs)
qed

section \<open>Search terms\<close>

lemma startswith_iff: "startswith s p = (\<exists>post. s = p @ post)"
  unfolding startswith_def
  by (metis append_eq_conv_conj append_take_drop_id)

lemma str_in_iff: "str_in a b = (\<exists>pre post. b = pre @ a @ post)"
proof (induction b)
  case Nil
  then show ?case by auto
next
  case (Cons y ys)
  show ?case
  proof
    assume "str_in a (y # ys)"
    then consider "startswith (y # ys) a" | "str_in a ys"
      by auto
    then show "\<exists>pre post. y # ys = pre @ a @ post"
    proof cases
      case 1
      then obtain post where "y # ys = a @ post"
        by (auto simp: startswith_iff)
      then have "y # ys = [] @ a @ post"
        by simp
      then show ?thesis
        by blast
    next
      case 2
      with Cons obtain pre post where "ys = pre @ a @ post"
        by auto
      then have "y # ys = (y # pre) @ a @ post"
        by simp
      then show ?thesis
        by blast
    qed
  next
    assume "\<exists>pre post. y # ys = pre @ a @ post"
    then obtain pre post where e: "y # ys = pre @ a @ post"
      by blast
    show "str_in a (y # ys)"
    proof (cases pre)
      case Nil
      with e have "startswith (y # ys) a"
        by (auto simp: startswith_iff)
      then show ?thesis
        by simp
    next
      case (Cons z zs)
      with e have "ys = zs @ a @ post"
        by simp
      with Cons.IH have "str_in a ys"
        by blast
      then show ?thesis
        by simp
    qed
  qed
qed

text \<open>
  C8 (as amended). \<^verbatim>\<open>hasTerm\<close> passes exactly when the term, in lower case, is a substring
  of the lower-cased text \<^verbatim>\<open>source + " " + desc\<close> (\<^verbatim>\<open>+ " " + author\<close> when there is an
  author), or the term is one of the tags verbatim, or the term, in upper case, is a
  substring of the identifier normalisation of the source.
\<close>

theorem hasTerm_iff:
  "hasTerm inferPUID e t =
     ((\<exists>pre post.
         lower (source e @ '' '' @ desc e @ (case author e of None \<Rightarrow> [] | Some a \<Rightarrow> '' '' @ a)) =
           pre @ lower t @ post) \<or>
      t \<in> set (tags e) \<or>
      (\<exists>pre post. inferPUID (source e) = pre @ upper t @ post))"
  by (cases "author e") (simp_all add: hasTerm_def blob_def str_in_iff)

theorem hasTerm_iff_witness:
  "hasTerm inferPUID_sample ex_usamo ''o2'' \<and>
   (\<exists>pre post. inferPUID_sample (source ex_usamo) = pre @ upper ''o2'' @ post) \<and>
   hasTerm inferPUID_sample ex_usamo ''FIEND'' \<and> hasTerm inferPUID_sample ex_usamo ''nice'' \<and>
   \<not> hasTerm inferPUID_sample ex_usamo ''Nice''"
proof -
  have a: "hasTerm inferPUID_sample ex_usamo ''o2''"
    by code_simp
  have b: "\<not> str_in (lower ''o2'')
      (lower (source ex_usamo @ '' '' @ desc ex_usamo @
         (case author ex_usamo of None \<Rightarrow> [] | Some a \<Rightarrow> '' '' @ a)))"
    by code_simp
  have c: "''o2'' \<notin> set (tags ex_usamo)"
    by code_simp
  have d: "hasTerm inferPUID_sample ex_usamo ''FIEND'' \<and> hasTerm inferPUID_sample ex_usamo ''nice'' \<and>
      \<not> hasTerm inferPUID_sample ex_usamo ''Nice''"
    by code_simp
  from a b c d hasTerm_iff [of inferPUID_sample ex_usamo "''o2''"] show ?thesis
    by (simp add: str_in_iff)
qed

text \<open>
  The claim as stated asks for the upper-cased term to be equal to the normalised
  identifier. The term \<^verbatim>\<open>o2\<close> passes for the source \<^verbatim>\<open>USAMO 2000/6\<close>, normalised to
  \<^verbatim>\<open>USAMO20006\<close>: it is no substring of the text, no tag, and \<^verbatim>\<open>O2\<close> is not the
  identifier, only a part of it.
\<close>

theorem hasTerm_accepts_part_of_puid:
  "hasTerm inferPUID_sample ex_usamo ''o2'' \<and>
   \<not> str_in (lower ''o2'')
       (lower (source ex_usamo @ '' '' @ desc ex_usamo @ '' '' @ the (author ex_usamo))) \<and>
   author ex_usamo = Some ''Gheorghita Zbaganu'' \<and>
   ''o2'' \<notin> set (tags ex_usamo) \<and>
   upper ''o2'' \<noteq> inferPUID_sample (source ex_usamo) \<and>
   inferPUID_sample (source ex_usamo) = ''USAMO20006''"
  by code_simp

section \<open>Reading the Cache by number\<close>

lemma getEntryByCacheNum_inside:
  "1 \<le> num \<Longrightarrow> num \<le> int (length (store c)) \<Longrightarrow>
   getEntryByCacheNum c num = Inr (cache_entries c ! nat (num - 1))"
  by (auto simp: getEntryByCacheNum_def cache_getitem_def Let_def cache_entries_def)

lemma getEntryByCacheNum_beyond:
  "int (length (store c)) < num \<or> num \<le> - int (length (store c)) \<Longrightarrow>
   getEntryByCacheNum c num = Inl IndexError"
  by (auto simp: getEntryByCacheNum_def cache_getitem_def Let_def)

lemma getEntryByCacheNum_wraps:
  "- int (length (store c)) < num \<Longrightarrow> num \<le> 0 \<Longrightarrow>
   getEntryByCacheNum c num = Inr (cache_entries c ! nat (int (length (store c)) + num - 1))"
  by (auto simp: getEntryByCacheNum_def cache_getitem_def Let_def cache_entries_def algebra_simps)

text \<open>
  C7. The claim asks for an error at every number outside \<open>1..L\<close>. The code raises
  \<^verbatim>\<open>IndexError\<close> above \<open>L\<close> and at \<open>-L\<close> and below (\<open>getEntryByCacheNum_beyond\<close>), but
  for the numbers \<open>-L+1 .. 0\<close> the index \<open>num - 1\<close> is negative and Python counts it from
  the end (\<open>getEntryByCacheNum_wraps\<close>): with two entries in the Cache, number \<open>0\<close>
  returns the second one.
\<close>

theorem getEntryByCacheNum_zero_returns_last:
  "length (store ex_cache) = 2 \<and>
   getEntryByCacheNum ex_cache 0 = Inr (ex_unrated\<lparr>i := Some 1\<rparr>)"
  by (simp add: ex_cache_def cache_set_def getEntryByCacheNum_def cache_getitem_def ex_objects_def)

section \<open>Writing the Cache\<close>

lemma cache_numbered_iff:
  "cache_numbered c = (\<forall>p<length (store c). i (cache_entries c ! p) = Some (int p))"
proof -
  let ?l = "map i (cache_entries c)" and ?r = "map (\<lambda>p. Some (int p)) [0..<length (store c)]"
  have "(?l = ?r) = (length ?l = length ?r \<and> (\<forall>p<length ?l. ?l ! p = ?r ! p))"
    by (rule list_eq_iff_nth_eq)
  then show ?thesis
    by (simp add: cache_numbered_def cache_entries_def)
qed

lemma set_loop_notin: "a \<notin> set st \<Longrightarrow> set_loop k st h a = h a"
  by (induction st arbitrary: k h) auto

lemma set_loop_frame: "(set_loop k st h a)\<lparr>i := x\<rparr> = (h a)\<lparr>i := x\<rparr>"
  by (induction st arbitrary: k h) auto

lemma set_loop_distinct:
  "distinct st \<Longrightarrow> p < length st \<Longrightarrow> set_loop k st h (st ! p) = (h (st ! p))\<lparr>i := Some (int (k + p))\<rparr>"
proof (induction st arbitrary: k h p)
  case Nil
  then show ?case by simp
next
  case (Cons a as)
  show ?case
  proof (cases p)
    case 0
    with Cons.prems show ?thesis by (simp add: set_loop_notin)
  next
    case (Suc q)
    with Cons.prems have q: "q < length as" and d: "distinct as" and ne: "as ! q \<noteq> a"
      by auto
    let ?h = "h(a := (h a)\<lparr>i := Some (int k)\<rparr>)"
    have "set_loop k (a # as) h ((a # as) ! p) = set_loop (Suc k) as ?h (as ! q)"
      using Suc by simp
    also have "\<dots> = (?h (as ! q))\<lparr>i := Some (int (Suc k + q))\<rparr>"
      by (rule Cons.IH [OF d q])
    also have "\<dots> = (h ((a # as) ! p))\<lparr>i := Some (int (k + p))\<rparr>"
      using ne Suc by simp
    finally show ?thesis .
  qed
qed

lemma cache_set_numbered: "distinct st \<Longrightarrow> cache_numbered (cache_set h st)"
  by (simp add: cache_numbered_iff cache_set_def cache_entries_def set_loop_distinct)

lemma cache_numbered_distinct: "cache_numbered c \<Longrightarrow> distinct (store c)"
proof -
  assume a: "cache_numbered c"
  have pos: "\<And>p. p < length (store c) \<Longrightarrow> i (objects c (store c ! p)) = Some (int p)"
    using a by (simp add: cache_numbered_iff cache_entries_def)
  have "\<And>p q. p < length (store c) \<Longrightarrow> q < length (store c) \<Longrightarrow> p \<noteq> q \<Longrightarrow>
      store c ! p \<noteq> store c ! q"
  proof
    fix p q
    assume p: "p < length (store c)" and q: "q < length (store c)" and ne: "p \<noteq> q"
      and e: "store c ! p = store c ! q"
    have "Some (int p) = i (objects c (store c ! p))"
      by (rule sym) (rule pos [OF p])
    also have "\<dots> = i (objects c (store c ! q))"
      by (simp only: e)
    also have "\<dots> = Some (int q)"
      by (rule pos [OF q])
    finally have "p = q"
      by simp
    with ne show False ..
  qed
  then show ?thesis
    unfolding distinct_conv_nth by blast
qed

lemma fold_max_ge: "m \<le> fold max st (m::nat)"
  by (induction st arbitrary: m) (auto intro: order_trans [OF max.cobounded2])

lemma le_fold_max: "a \<in> set st \<Longrightarrow> a \<le> fold max st (m::nat)"
proof (induction st arbitrary: m)
  case Nil then show ?case by simp
next
  case (Cons x xs)
  then show ?case
    by (auto intro: order_trans [OF max.cobounded1 fold_max_ge])
qed

lemma new_object_fresh: "new_object st \<notin> set st"
  using le_fold_max [of "new_object st" st 0] by (auto simp: new_object_def)


lemma set_loop_append:
  "set_loop k (st @ [a]) h =
     (set_loop k st h)(a := (set_loop k st h a)\<lparr>i := Some (int (k + length st))\<rparr>)"
  by (induction st arbitrary: k h) (simp_all add: ac_simps)

lemma find_source_Some:
  "find_source h s k st = Some j \<Longrightarrow>
     k \<le> j \<and> j - k < length st \<and> source (h (st ! (j - k))) = s \<and>
     (\<forall>m<j - k. source (h (st ! m)) \<noteq> s)"
proof (induction st arbitrary: k)
  case Nil
  then show ?case by simp
next
  case (Cons a as)
  show ?case
  proof (cases "source (h a) = s")
    case True
    with Cons.prems show ?thesis by simp
  next
    case False
    with Cons.prems have "find_source h s (Suc k) as = Some j" by simp
    from Cons.IH [OF this] have ih: "Suc k \<le> j" "j - Suc k < length as"
      "source (h (as ! (j - Suc k))) = s" "\<forall>m<j - Suc k. source (h (as ! m)) \<noteq> s"
      by auto
    from ih(1) have eq: "j - k = Suc (j - Suc k)" by arith
    have "\<forall>m<j - k. source (h ((a # as) ! m)) \<noteq> s"
    proof (intro allI impI)
      fix m assume "m < j - k"
      then show "source (h ((a # as) ! m)) \<noteq> s"
        using False ih(4) eq by (cases m) auto
    qed
    with ih eq show ?thesis by simp
  qed
qed

lemma find_source_None:
  "(find_source h s k st = None) = (\<forall>a\<in>set st. source (h a) \<noteq> s)"
  by (induction st arbitrary: k) auto

lemma find_source_first:
  "k < length st \<Longrightarrow> source (h (st ! k)) = s \<Longrightarrow> \<forall>m<k. source (h (st ! m)) \<noteq> s \<Longrightarrow>
   find_source h s 0 st = Some k"
proof -
  assume k: "k < length st" and s: "source (h (st ! k)) = s" and f: "\<forall>m<k. source (h (st ! m)) \<noteq> s"
  from k s have "\<not> (\<forall>a\<in>set st. source (h a) \<noteq> s)"
    using nth_mem by blast
  then obtain j where j: "find_source h s 0 st = Some j"
    using find_source_None [of h s 0 st] by (cases "find_source h s 0 st") auto
  from find_source_Some [OF j] have js: "source (h (st ! j)) = s"
    and jf: "\<forall>m<j. source (h (st ! m)) \<noteq> s" by auto
  from f js have "\<not> j < k" by blast
  moreover from jf s have "\<not> k < j" by blast
  ultimately have "j = k" by arith
  with j show ?thesis by simp
qed

lemma update_cache_found:
  assumes f: "find_source (objects c) old 0 (store c) = Some k"
  shows "update_cache old e c =
     \<lparr>objects = (objects c)(new_object (store c) := e\<lparr>i := Some (int k)\<rparr>),
      store = (store c)[k := new_object (store c)]\<rparr>"
  using f by (simp add: update_cache_def Let_def)

lemma update_cache_missing:
  assumes f: "find_source (objects c) old 0 (store c) = None"
  shows "update_cache old e c =
     cache_set ((objects c)(new_object (store c) := e)) (store c @ [new_object (store c)])"
  using f by (simp add: update_cache_def Let_def)

lemma update_cache_found_entries:
  assumes f: "find_source (objects c) old 0 (store c) = Some k"
  shows "cache_entries (update_cache old e c) = (cache_entries c)[k := e\<lparr>i := Some (int k)\<rparr>]"
proof -
  let ?a = "new_object (store c)"
  let ?h = "(objects c)(?a := e\<lparr>i := Some (int k)\<rparr>)"
  from find_source_Some [OF f] have k: "k < length (store c)" by simp
  have "map ?h ((store c)[k := ?a]) = (map (objects c) (store c))[k := e\<lparr>i := Some (int k)\<rparr>]"
  proof (rule nth_equalityI)
    show "length (map ?h ((store c)[k := ?a])) = length ((map (objects c) (store c))[k := e\<lparr>i := Some (int k)\<rparr>])"
      by simp
  next
    fix p assume "p < length (map ?h ((store c)[k := ?a]))"
    then have p: "p < length (store c)" by simp
    show "map ?h ((store c)[k := ?a]) ! p = (map (objects c) (store c))[k := e\<lparr>i := Some (int k)\<rparr>] ! p"
    proof (cases "p = k")
      case True
      with k show ?thesis by simp
    next
      case False
      from p have "store c ! p \<in> set (store c)" by simp
      with new_object_fresh [of "store c"] have "store c ! p \<noteq> ?a" by metis
      with False p show ?thesis by simp
    qed
  qed
  with f show ?thesis
    by (simp add: update_cache_found cache_entries_def)
qed

lemma update_cache_missing_entries:
  assumes f: "find_source (objects c) old 0 (store c) = None"
  shows "length (cache_entries (update_cache old e c)) = Suc (length (cache_entries c))"
    and "cache_entries (update_cache old e c) ! length (cache_entries c) =
           e\<lparr>i := Some (int (length (cache_entries c)))\<rparr>"
    and "\<forall>j<length (cache_entries c).
           (cache_entries (update_cache old e c) ! j)\<lparr>i := None\<rparr> = (cache_entries c ! j)\<lparr>i := None\<rparr>"
proof -
  let ?a = "new_object (store c)"
  let ?h = "(objects c)(?a := e)"
  let ?L = "length (store c)"
  have fresh: "?a \<notin> set (store c)" by (rule new_object_fresh)
  have ent: "cache_entries (update_cache old e c) = map (set_loop 0 (store c @ [?a]) ?h) (store c @ [?a])"
    using f by (simp add: update_cache_missing cache_entries_def cache_set_def)
  show "length (cache_entries (update_cache old e c)) = Suc (length (cache_entries c))"
    unfolding ent by (simp add: cache_entries_def)
  have s1: "set_loop 0 (store c) ?h ?a = ?h ?a"
    by (rule set_loop_notin [OF fresh])
  have last: "set_loop 0 (store c @ [?a]) ?h ?a = e\<lparr>i := Some (int ?L)\<rparr>"
    by (simp add: set_loop_append s1)
  show "cache_entries (update_cache old e c) ! length (cache_entries c) =
           e\<lparr>i := Some (int (length (cache_entries c)))\<rparr>"
    unfolding ent by (simp add: cache_entries_def nth_append last)
  show "\<forall>j<length (cache_entries c).
           (cache_entries (update_cache old e c) ! j)\<lparr>i := None\<rparr> = (cache_entries c ! j)\<lparr>i := None\<rparr>"
  proof (intro allI impI)
    fix j assume "j < length (cache_entries c)"
    then have j: "j < ?L" by (simp add: cache_entries_def)
    then have "store c ! j \<in> set (store c)" by simp
    with fresh have ne: "store c ! j \<noteq> ?a" by metis
    have "(set_loop 0 (store c @ [?a]) ?h (store c ! j))\<lparr>i := None\<rparr> = (?h (store c ! j))\<lparr>i := None\<rparr>"
      by (rule set_loop_frame)
    with ne j show "(cache_entries (update_cache old e c) ! j)\<lparr>i := None\<rparr> = (cache_entries c ! j)\<lparr>i := None\<rparr>"
      unfolding ent by (simp add: cache_entries_def nth_append)
  qed
qed

lemma update_cache_numbered:
  assumes inv: "cache_numbered c"
  shows "cache_numbered (update_cache old e c)"
proof (cases "find_source (objects c) old 0 (store c)")
  case None
  have "distinct (store c @ [new_object (store c)])"
    using cache_numbered_distinct [OF inv] new_object_fresh [of "store c"] by simp
  then show ?thesis
    by (simp add: update_cache_missing [OF None] cache_set_numbered)
next
  case (Some k)
  from find_source_Some [OF Some] have k: "k < length (store c)" by simp
  have len: "length (store (update_cache old e c)) = length (store c)"
    by (simp add: update_cache_found [OF Some])
  show ?thesis
    unfolding cache_numbered_iff len
  proof (intro allI impI)
    fix p assume p: "p < length (store c)"
    from inv p have old_p: "i (cache_entries c ! p) = Some (int p)"
      by (simp add: cache_numbered_iff)
    from p have pe: "p < length (cache_entries c)" by (simp add: cache_entries_def)
    show "i (cache_entries (update_cache old e c) ! p) = Some (int p)"
      using old_p pe by (cases "p = k") (simp_all add: update_cache_found_entries [OF Some])
  qed
qed


lemma updateEntryByProblem_KeyError:
  assumes "source old_entry \<noteq> source new_problem"
    and "source old_entry \<notin> set (map fst (index st))"
  shows "updateEntryByProblem old_entry new_problem st = Inl KeyError"
  using assms by (simp add: updateEntryByProblem_def entry_def index_delitem_def)

lemma updateEntryByProblem_Inr:
  assumes "source old_entry = source new_problem \<or> source old_entry \<in> set (map fst (index st))"
  shows "\<exists>r st'. updateEntryByProblem old_entry new_problem st = Inr (r, st') \<and>
     cache st' = update_cache (source old_entry) (entry (new_problem\<lparr>i := i old_entry\<rparr>)) (cache st)"
  using assms by (auto simp: updateEntryByProblem_def entry_def index_delitem_def Let_def)

lemma updateEntryByProblem_cache:
  assumes "updateEntryByProblem old_entry new_problem st = Inr (r, st')"
  shows "cache st' = update_cache (source old_entry) (entry (new_problem\<lparr>i := i old_entry\<rparr>)) (cache st)"
  using assms
  by (auto simp: updateEntryByProblem_def Let_def split: sum.splits if_splits)

text \<open>
  C4 (as amended). \<^verbatim>\<open>set\<close> writes the index of every place of the list into the object
  that stands there. When no object stands at two places of the list, every entry then
  carries its own position, whatever positions the caller supplied: this holds after
  \<^verbatim>\<open>setCache\<close> with a list of pairwise distinct objects, after \<^verbatim>\<open>augmentCache\<close> when the
  stored list followed by the new entries has no object twice, and after \<^verbatim>\<open>clearCache\<close>.
  \<^verbatim>\<open>updateEntryByProblem\<close>, when it returns, keeps the invariant of a Cache that had it:
  it stamps the new entry with the place it is put at and touches no other entry, or
  appends through \<^verbatim>\<open>set\<close>.
\<close>

theorem cache_writes_number_positions:
  "(distinct es \<longrightarrow> cache_numbered (setCache h es)) \<and>
   (distinct (store c @ added) \<longrightarrow> cache_numbered (augmentCache c added)) \<and>
   cache_numbered (clearCache c) \<and>
   (cache_numbered (cache st) \<and> updateEntryByProblem old_entry new_problem st = Inr (r, st') \<longrightarrow>
      cache_numbered (cache st'))"
proof (intro conjI impI)
  assume "distinct es"
  then show "cache_numbered (setCache h es)"
    by (simp add: setCache_def cache_set_numbered)
next
  assume "distinct (store c @ added)"
  then show "cache_numbered (augmentCache c added)"
    by (simp add: augmentCache_def cache_set_numbered)
next
  show "cache_numbered (clearCache c)"
    by (simp add: clearCache_def cache_set_numbered)
next
  assume a: "cache_numbered (cache st) \<and>
    updateEntryByProblem old_entry new_problem st = Inr (r, st')"
  then have "cache st' =
      update_cache (source old_entry) (entry (new_problem\<lparr>i := i old_entry\<rparr>)) (cache st)"
    by (simp add: updateEntryByProblem_cache)
  with a show "cache_numbered (cache st')"
    by (simp add: update_cache_numbered)
qed

lemma ex_cache_numbered: "cache_numbered ex_cache"
  by (simp add: ex_cache_def cache_set_numbered)

theorem cache_writes_number_positions_witness:
  "distinct [0::nat, 1] \<and> cache_numbered (setCache ex_objects [0, 1]) \<and>
   distinct (store ex_cache @ [2]) \<and> cache_numbered (augmentCache ex_cache [2]) \<and>
   cache_numbered (clearCache ex_cache) \<and>
   cache_numbered (cache ex_state) \<and>
   (\<exists>r st'. updateEntryByProblem ex_usamo ex_problem ex_state = Inr (r, st') \<and>
      cache_numbered (cache st'))"
proof -
  have d1: "distinct [0::nat, 1]" by simp
  have d2: "distinct (store ex_cache @ [2])"
    by (simp add: ex_cache_def cache_set_def)
  have inv: "cache_numbered (cache ex_state)"
    by (simp add: ex_state_def ex_cache_numbered)
  have "source ex_usamo = source ex_problem \<or> source ex_usamo \<in> set (map fst (index ex_state))"
    by (simp add: ex_usamo_def ex_problem_def)
  from updateEntryByProblem_Inr [OF this] obtain r st' where
    u: "updateEntryByProblem ex_usamo ex_problem ex_state = Inr (r, st')" by blast
  from cache_writes_number_positions [where es = "[0, 1]" and h = ex_objects and c = ex_cache
      and added = "[2]" and st = ex_state and old_entry = ex_usamo and new_problem = ex_problem
      and r = r and st' = st']
    d1 d2 inv u show ?thesis by blast
qed

text \<open>
  The claim as stated, for an arbitrary sequence, fails for a list that holds one object
  twice, as \<^verbatim>\<open>setCache([e, e])\<close> does: the loop leaves the last index in the object, so the
  entry at position \<open>0\<close> carries position \<open>1\<close>.
\<close>

theorem set_shared_object_breaks_numbering:
  "i (cache_entries (setCache ex_objects [0, 0]) ! 0) = Some 1 \<and>
   \<not> cache_numbered (setCache ex_objects [0, 0])"
  by (simp add: setCache_def cache_set_def cache_entries_def cache_numbered_def)

lemma update_cache_replaces_or_appends:
  "(old \<in> set (map source (cache_entries c)) \<longrightarrow>
      (\<exists>k<length (cache_entries c).
          source (cache_entries c ! k) = old \<and>
          (\<forall>j<k. source (cache_entries c ! j) \<noteq> old) \<and>
          cache_entries (update_cache old e c) = (cache_entries c)[k := e\<lparr>i := Some (int k)\<rparr>])) \<and>
   (old \<notin> set (map source (cache_entries c)) \<longrightarrow>
      length (cache_entries (update_cache old e c)) = Suc (length (cache_entries c)) \<and>
      cache_entries (update_cache old e c) ! length (cache_entries c) =
        e\<lparr>i := Some (int (length (cache_entries c)))\<rparr> \<and>
      (\<forall>j<length (cache_entries c).
          (cache_entries (update_cache old e c) ! j)\<lparr>i := None\<rparr> = (cache_entries c ! j)\<lparr>i := None\<rparr>))"
proof (cases "find_source (objects c) old 0 (store c)")
  case None
  then have "old \<notin> set (map source (cache_entries c))"
    by (auto simp: find_source_None cache_entries_def)
  with update_cache_missing_entries [OF None, of e] show ?thesis
    by blast
next
  case (Some k)
  from find_source_Some [OF Some] have k: "k < length (store c)"
    and s: "source (objects c (store c ! k)) = old"
    and f: "\<forall>m<k. source (objects c (store c ! m)) \<noteq> old"
    by auto
  from k s have "old \<in> set (map source (cache_entries c))"
    by (force simp: cache_entries_def)
  moreover from k have "k < length (cache_entries c)"
    by (simp add: cache_entries_def)
  moreover from k s have "source (cache_entries c ! k) = old"
    by (simp add: cache_entries_def)
  moreover from k f have "\<forall>j<k. source (cache_entries c ! j) \<noteq> old"
    by (simp add: cache_entries_def)
  ultimately show ?thesis
    using update_cache_found_entries [OF Some, of e] by blast
qed

lemma entry_position: "(entry (p\<lparr>i := x\<rparr>))\<lparr>i := y\<rparr> = (entry p)\<lparr>i := y\<rparr>"
  by (simp add: entry_def)

text \<open>
  C5 (as amended). For every state and every call of \<^verbatim>\<open>updateEntryByProblem\<close> whose Index
  session does not raise, that is, when the new problem keeps the source of the old entry
  or the source of the old entry is a key of the Index: the call returns, and if some
  entry of the Cache has the old source, then at the first such position \<open>k\<close> the new
  entry, with its position field set to \<open>k\<close>, replaces the entry, and every other place
  of the list keeps its entry; if no entry of the Cache has the old source, the Cache
  grows by one, the new entry stands at the end with the position of the end, and the
  entries before it are, up to their renumbered position field, the entries that were
  there.
\<close>

theorem updateEntryByProblem_replaces_or_appends:
  assumes ok: "source old_entry = source new_problem \<or>
               source old_entry \<in> set (map fst (index st))"
  shows "\<exists>r st'. updateEntryByProblem old_entry new_problem st = Inr (r, st') \<and>
     (source old_entry \<in> set (map source (cache_entries (cache st))) \<longrightarrow>
        (\<exists>k<length (cache_entries (cache st)).
            source (cache_entries (cache st) ! k) = source old_entry \<and>
            (\<forall>j<k. source (cache_entries (cache st) ! j) \<noteq> source old_entry) \<and>
            cache_entries (cache st') =
              (cache_entries (cache st))[k := (entry new_problem)\<lparr>i := Some (int k)\<rparr>])) \<and>
     (source old_entry \<notin> set (map source (cache_entries (cache st))) \<longrightarrow>
        length (cache_entries (cache st')) = Suc (length (cache_entries (cache st))) \<and>
        cache_entries (cache st') ! length (cache_entries (cache st)) =
          (entry new_problem)\<lparr>i := Some (int (length (cache_entries (cache st))))\<rparr> \<and>
        (\<forall>j<length (cache_entries (cache st)).
            (cache_entries (cache st') ! j)\<lparr>i := None\<rparr> = (cache_entries (cache st) ! j)\<lparr>i := None\<rparr>))"
proof -
  let ?e = "entry (new_problem\<lparr>i := i old_entry\<rparr>)"
  from updateEntryByProblem_Inr [OF ok] obtain r st' where
    u: "updateEntryByProblem old_entry new_problem st = Inr (r, st')"
    and c: "cache st' = update_cache (source old_entry) ?e (cache st)"
    by blast
  from update_cache_replaces_or_appends [of "source old_entry" "cache st" ?e]
  have "(source old_entry \<in> set (map source (cache_entries (cache st))) \<longrightarrow>
        (\<exists>k<length (cache_entries (cache st)).
            source (cache_entries (cache st) ! k) = source old_entry \<and>
            (\<forall>j<k. source (cache_entries (cache st) ! j) \<noteq> source old_entry) \<and>
            cache_entries (cache st') =
              (cache_entries (cache st))[k := (entry new_problem)\<lparr>i := Some (int k)\<rparr>])) \<and>
     (source old_entry \<notin> set (map source (cache_entries (cache st))) \<longrightarrow>
        length (cache_entries (cache st')) = Suc (length (cache_entries (cache st))) \<and>
        cache_entries (cache st') ! length (cache_entries (cache st)) =
          (entry new_problem)\<lparr>i := Some (int (length (cache_entries (cache st))))\<rparr> \<and>
        (\<forall>j<length (cache_entries (cache st)).
            (cache_entries (cache st') ! j)\<lparr>i := None\<rparr> = (cache_entries (cache st) ! j)\<lparr>i := None\<rparr>))"
    unfolding c entry_position .
  with u show ?thesis by blast
qed

theorem updateEntryByProblem_replaces_or_appends_witness:
  "(source ex_unrated = source ex_problem \<or> source ex_unrated \<in> set (map fst (index ex_state))) \<and>
   ''ZZZ 1'' \<in> set (map source (cache_entries (cache ex_state))) \<and>
   (\<exists>r st'. updateEntryByProblem ex_unrated ex_problem ex_state = Inr (r, st') \<and>
      (\<exists>k<length (cache_entries (cache ex_state)).
         source (cache_entries (cache ex_state) ! k) = ''ZZZ 1'' \<and>
         cache_entries (cache st') =
           (cache_entries (cache ex_state))[k := (entry ex_problem)\<lparr>i := Some (int k)\<rparr>])) \<and>
   (\<exists>r st'. updateEntryByProblem ex_twin ex_problem ex_empty = Inr (r, st') \<and>
      length (cache_entries (cache st')) = 1 \<and>
      cache_entries (cache st') ! 0 = (entry ex_problem)\<lparr>i := Some 0\<rparr>)"
proof -
  have ent: "cache_entries ex_cache = [ex_usamo\<lparr>i := Some 0\<rparr>, ex_unrated\<lparr>i := Some 1\<rparr>]"
    by (simp add: ex_cache_def cache_set_def cache_entries_def ex_objects_def)
  have su: "source ex_unrated = ''ZZZ 1''"
    by (simp add: ex_unrated_def)
  have ok1: "source ex_unrated = source ex_problem \<or> source ex_unrated \<in> set (map fst (index ex_state))"
    by (simp add: ex_state_def ex_unrated_def)
  have a: "''ZZZ 1'' \<in> set (map source (cache_entries (cache ex_state)))"
    by (simp add: ex_state_def ent ex_defs)
  from updateEntryByProblem_replaces_or_appends [OF ok1] a su
  have 1: "\<exists>r st'. updateEntryByProblem ex_unrated ex_problem ex_state = Inr (r, st') \<and>
      (\<exists>k<length (cache_entries (cache ex_state)).
         source (cache_entries (cache ex_state) ! k) = ''ZZZ 1'' \<and>
         cache_entries (cache st') =
           (cache_entries (cache ex_state))[k := (entry ex_problem)\<lparr>i := Some (int k)\<rparr>])"
    by (simp only:) blast
  have ok2: "source ex_twin = source ex_problem \<or> source ex_twin \<in> set (map fst (index ex_empty))"
    by (simp add: ex_twin_def ex_problem_def)
  have e0: "cache_entries (cache ex_empty) = []"
    by (simp add: ex_empty_def cache_entries_def)
  from updateEntryByProblem_replaces_or_appends [OF ok2]
  have 2: "\<exists>r st'. updateEntryByProblem ex_twin ex_problem ex_empty = Inr (r, st') \<and>
      length (cache_entries (cache st')) = 1 \<and>
      cache_entries (cache st') ! 0 = (entry ex_problem)\<lparr>i := Some 0\<rparr>"
    unfolding e0 by simp
  from ok1 a 1 2 show ?thesis by blast
qed

text \<open>
  The claim as stated, for every update, fails when the source changes and the old source
  is no key of the Index: \<^verbatim>\<open>del index[old_entry.source]\<close> raises \<^verbatim>\<open>KeyError\<close> before the
  Cache is opened. Here the Cache holds an entry of source \<^verbatim>\<open>ZZZ 1\<close> while the Index is
  empty (a Cache filled by a directory listing), and the entry is not replaced.
\<close>

theorem updateEntryByProblem_KeyError_example:
  "source ex_unrated = ''ZZZ 1'' \<and> source ex_problem = ''USAMO 2000/6'' \<and>
   ''ZZZ 1'' \<in> set (map source (cache_entries (cache ex_stale))) \<and>
   updateEntryByProblem ex_unrated ex_problem ex_stale = Inl KeyError"
proof -
  have ent: "cache_entries ex_cache = [ex_usamo\<lparr>i := Some 0\<rparr>, ex_unrated\<lparr>i := Some 1\<rparr>]"
    by (simp add: ex_cache_def cache_set_def cache_entries_def ex_objects_def)
  have a: "''ZZZ 1'' \<in> set (map source (cache_entries (cache ex_stale)))"
    by (simp add: ex_stale_def ent ex_defs)
  have b: "updateEntryByProblem ex_unrated ex_problem ex_stale = Inl KeyError"
    by (rule updateEntryByProblem_KeyError) (simp_all add: ex_stale_def ex_unrated_def ex_problem_def)
  from a b show ?thesis
    by (simp add: ex_unrated_def ex_problem_def)
qed

section \<open>The Index\<close>

lemma index_ok_iff:
  "index_ok d = (distinct (map fst d) \<and> (\<forall>k v. map_of d k = Some v \<longrightarrow> source v = k))"
  by (auto simp: index_ok_def list_all_iff)

lemma index_ok_setitem: "index_ok d \<Longrightarrow> index_ok (index_setitem d (source v) v)"
  by (auto simp: index_ok_iff index_setitem_def distinct_update update_conv')

lemma index_ok_delete: "index_ok d \<Longrightarrow> index_ok (AList.delete k d)"
  by (auto simp: index_ok_iff distinct_delete delete_conv')

lemma source_entry: "source (entry p) = source p"
  by (simp add: entry_def)

lemma index_ok_rebuild_loop:
  "index_ok d \<Longrightarrow> rebuild_loop rnd k ps d errs = (d', errs') \<Longrightarrow> index_ok d'"
proof (induction ps arbitrary: k d errs)
  case Nil
  then show ?case by simp
next
  case (Cons p ps)
  show ?case
  proof (cases "source p \<in> set (map fst d)")
    case True
    let ?p = "p\<lparr>source := fake_source (rnd k)\<rparr>"
    have "index_ok (index_setitem d (source (entry ?p)) (entry ?p))"
      by (rule index_ok_setitem [OF Cons.prems(1)])
    then have ok: "index_ok (index_setitem d (fake_source (rnd k)) (entry ?p))"
      by (simp add: source_entry)
    from Cons.prems(2) True obtain e2 where
      "rebuild_loop rnd (Suc k) ps (index_setitem d (fake_source (rnd k)) (entry ?p)) e2 = (d', errs')"
      by (simp add: Let_def)
    from Cons.IH [OF ok this] show ?thesis .
  next
    case False
    have "index_ok (index_setitem d (source (entry p)) (entry p))"
      by (rule index_ok_setitem [OF Cons.prems(1)])
    then have ok: "index_ok (index_setitem d (source p) (entry p))"
      by (simp add: source_entry)
    from Cons.prems(2) False have
      "rebuild_loop rnd k ps (index_setitem d (source p) (entry p)) errs = (d', errs')"
      by simp
    from Cons.IH [OF ok this] show ?thesis .
  qed
qed

lemma index_ok_Nil: "index_ok []"
  by (simp add: index_ok_def)

lemma reachable_index_ok: "reachable st \<Longrightarrow> index_ok (index st)"
proof (induction rule: reachable.induct)
  case (initial c)
  then show ?case by (simp add: index_ok_Nil)
next
  case (add_entry st v)
  then show ?case by (simp add: addEntryToIndex_def index_ok_setitem)
next
  case (add_problem st p v st')
  have "index_ok (index_setitem (index st) (source (entry p)) (entry p))"
    by (rule index_ok_setitem [OF add_problem.IH])
  with add_problem.hyps(2) show ?case
    by (auto simp: addProblemToIndex_def Let_def source_entry split: sum.splits)
next
  case (update_entry st old_entry new_problem v st')
  let ?ne = "entry (new_problem\<lparr>i := i old_entry\<rparr>)"
  have a: "index_ok (index_setitem (index st) (source ?ne) ?ne)"
    by (rule index_ok_setitem [OF update_entry.IH])
  have b: "index_ok (index_setitem (AList.delete (source old_entry) (index st)) (source ?ne) ?ne)"
    by (rule index_ok_setitem [OF index_ok_delete [OF update_entry.IH]])
  from update_entry.hyps(2) a b show ?case
    by (auto simp: updateEntryByProblem_def Let_def index_delitem_def split: sum.splits if_splits)
next
  case (rebuild st rnd problems st' errors)
  from rebuild.hyps(2) obtain d where
    l: "rebuild_loop rnd 0 problems [] [] = (d, errors)" and s: "st' = setEntireIndex d st"
    by (auto simp: rebuildIndex_def split: prod.splits)
  from index_ok_rebuild_loop [OF index_ok_Nil l] s show ?case
    by (simp add: setEntireIndex_def)
next
  case (cache_written st c)
  then show ?case by simp
qed

text \<open>
  C3. In every state that the Index operations of the module produce, starting from the
  empty Index of a missing file (\<^verbatim>\<open>addEntryToIndex\<close>, \<^verbatim>\<open>addProblemToIndex\<close>,
  \<^verbatim>\<open>updateEntryByProblem\<close> when it returns, \<^verbatim>\<open>rebuildIndex\<close>, with any writes of the
  Cache in between), every entry of the Index is stored under the key that equals its
  source, and looking its source up returns that entry.
\<close>

theorem index_keys_are_sources:
  assumes "reachable st" and "(k, v) \<in> set (index st)"
  shows "source v = k \<and> getEntryBySource (index st) (source v) = Some v"
proof -
  from reachable_index_ok [OF assms(1)] have d: "distinct (map fst (index st))"
    and a: "\<forall>k v. map_of (index st) k = Some v \<longrightarrow> source v = k"
    by (simp_all add: index_ok_iff)
  from d assms(2) have m: "map_of (index st) k = Some v" by simp
  with a have "source v = k" by blast
  with m show ?thesis by (simp add: getEntryBySource_def)
qed


theorem index_keys_are_sources_witness:
  "reachable (addEntryToIndex ex_unrated (addEntryToIndex ex_usamo ex_empty)) \<and>
   (''ZZZ 1'', ex_unrated) \<in> set (index (addEntryToIndex ex_unrated (addEntryToIndex ex_usamo ex_empty))) \<and>
   source ex_unrated = ''ZZZ 1'' \<and>
   getEntryBySource (index (addEntryToIndex ex_unrated (addEntryToIndex ex_usamo ex_empty)))
     (source ex_unrated) = Some ex_unrated"
proof -
  let ?st = "addEntryToIndex ex_unrated (addEntryToIndex ex_usamo ex_empty)"
  have r: "reachable ?st"
    unfolding ex_empty_def by (intro reachable.add_entry reachable.initial)
  have m: "(''ZZZ 1'', ex_unrated) \<in> set (index ?st)"
    by (simp add: addEntryToIndex_def index_setitem_def ex_empty_def ex_usamo_def ex_unrated_def)
  from index_keys_are_sources [OF r m] r m show ?thesis
    by blast
qed

lemma update_absent: "k \<notin> set (map fst al) \<Longrightarrow> AList.update k v al = al @ [(k, v)]"
  by (induction al) auto

lemma rebuild_loop_prefix:
  "distinct (map source ps) \<Longrightarrow> set (map source ps) \<inter> set (map fst d) = {} \<Longrightarrow>
   rebuild_loop rnd k (ps @ rest) d errs =
     rebuild_loop rnd k rest (d @ map (\<lambda>p. (source p, entry p)) ps) errs"
proof (induction ps arbitrary: d)
  case Nil
  then show ?case by simp
next
  case (Cons p ps)
  from Cons.prems have notin: "source p \<notin> set (map fst d)" by auto
  let ?d = "d @ [(source p, entry p)]"
  from Cons.prems have d: "distinct (map source ps)"
    and disj: "set (map source ps) \<inter> set (map fst ?d) = {}" by auto
  have "rebuild_loop rnd k ((p # ps) @ rest) d errs = rebuild_loop rnd k (ps @ rest) ?d errs"
    using notin by (simp add: index_setitem_def update_absent)
  also have "\<dots> = rebuild_loop rnd k rest (?d @ map (\<lambda>p. (source p, entry p)) ps) errs"
    by (rule Cons.IH [OF d disj])
  finally show ?case by simp
qed

lemma map_fst_pairs: "map fst (map (\<lambda>p. (source p, entry p)) ps) = map source ps"
  by (induction ps) simp_all

text \<open>
  C6 (as amended). Let the documents found on disk hold exactly two with the same source,
  \<open>q\<close> and later \<open>p\<close>, and let the placeholder that \<^verbatim>\<open>rebuildIndex\<close> draws for the
  collision be the source of none of the documents. Then the new Index holds one entry
  per document, in the order of discovery, each under its own source and the entry of
  \<open>p\<close> under the placeholder, and exactly one collision is reported.
\<close>

theorem rebuildIndex_one_collision:
  assumes docs: "docs = pre @ q # mid @ p # post"
    and same: "source p = source q"
    and others: "distinct (map source (pre @ q # mid @ post))"
    and placeholder: "fake_source (rnd 0) \<notin> set (map source docs)"
  shows "rebuildIndex rnd docs st =
     (st\<lparr>index := map (\<lambda>p. (source p, entry p))
                     (pre @ q # mid @ p\<lparr>source := fake_source (rnd 0)\<rparr> # post)\<rparr>,
      [source p @ '' is being repeated, replacing with '' @ fake_source (rnd 0)])"
proof -
  let ?f = "fake_source (rnd 0)"
  let ?P = "pre @ q # mid"
  let ?pair = "\<lambda>p. (source p, entry p)"
  let ?D1 = "map ?pair ?P"
  let ?p' = "p\<lparr>source := ?f\<rparr>"
  let ?D2 = "?D1 @ [(?f, entry ?p')]"
  let ?msg = "source p @ '' is being repeated, replacing with '' @ ?f"
  from others have dP: "distinct (map source ?P)" by auto
  have s1: "rebuild_loop rnd 0 (?P @ p # post) [] [] = rebuild_loop rnd 0 (p # post) ([] @ ?D1) []"
    by (rule rebuild_loop_prefix [OF dP]) simp
  have coll: "source p \<in> set (map fst ?D1)"
    using same by (simp add: map_fst_pairs)
  from placeholder docs have fnew: "?f \<notin> set (map fst ?D1)"
    by (simp add: map_fst_pairs)
  have s2: "rebuild_loop rnd 0 (p # post) ?D1 [] = rebuild_loop rnd (Suc 0) post ?D2 [?msg]"
    using coll fnew by (simp add: Let_def index_setitem_def update_absent entry_def)
  from others have dpost: "distinct (map source post)" by simp
  from others placeholder docs have disj: "set (map source post) \<inter> set (map fst ?D2) = {}"
    by (auto simp: map_fst_pairs)
  have "rebuild_loop rnd (Suc 0) (post @ []) ?D2 [?msg] =
      rebuild_loop rnd (Suc 0) [] (?D2 @ map ?pair post) [?msg]"
    by (rule rebuild_loop_prefix [OF dpost disj])
  then have s3: "rebuild_loop rnd (Suc 0) post ?D2 [?msg] = (?D2 @ map ?pair post, [?msg])"
    by simp
  have "rebuild_loop rnd 0 docs [] [] = (?D2 @ map ?pair post, [?msg])"
    using s1 s2 s3 docs by simp
  then show ?thesis
    by (simp add: rebuildIndex_def setEntireIndex_def entry_def)
qed


lemma fake_source_zero: "fake_source (rnd_zero k) = ''DUPLICATE 1000000''"
  by (simp add: fake_source_def randrange_def rnd_zero_def str_nat.simps)

theorem rebuildIndex_one_collision_witness:
  "source ex_doc_c = source ex_doc_b \<and>
   fake_source (rnd_zero 0) = ''DUPLICATE 1000000'' \<and>
   fake_source (rnd_zero 0) \<notin> set (map source [ex_doc_b, ex_doc_c]) \<and>
   rebuildIndex rnd_zero [ex_doc_b, ex_doc_c] ex_empty =
     (ex_empty\<lparr>index :=
        [(''X 1'', entry ex_doc_b),
         (''DUPLICATE 1000000'', entry (ex_doc_c\<lparr>source := ''DUPLICATE 1000000''\<rparr>))]\<rparr>,
      [''X 1 is being repeated, replacing with DUPLICATE 1000000''])"
proof -
  have d: "[ex_doc_b, ex_doc_c] = [] @ ex_doc_b # [] @ ex_doc_c # []"
    by simp
  have s: "source ex_doc_c = source ex_doc_b"
    by (simp add: ex_doc_b_def ex_doc_c_def)
  have o: "distinct (map source ([] @ ex_doc_b # [] @ []))"
    by simp
  have f: "fake_source (rnd_zero 0) = ''DUPLICATE 1000000''"
    by (rule fake_source_zero)
  have n: "fake_source (rnd_zero 0) \<notin> set (map source [ex_doc_b, ex_doc_c])"
    by (simp add: f ex_doc_b_def ex_doc_c_def)
  have sb: "source ex_doc_b = ''X 1''" and sc: "source ex_doc_c = ''X 1''"
    by (simp_all add: ex_doc_b_def ex_doc_c_def)
  from rebuildIndex_one_collision [where pre = "[]" and q = ex_doc_b and mid = "[]"
      and p = ex_doc_c and post = "[]" and docs = "[ex_doc_b, ex_doc_c]" and rnd = rnd_zero
      and st = ex_empty, OF d s o n] s f n show ?thesis
    by (simp add: sb sc)
qed

text \<open>
  The claim as stated promises a placeholder distinct from every real identifier. The
  code draws \<^verbatim>\<open>DUPLICATE\<close> and a random number and does not compare it with the sources:
  when a document already has that source, as the first of these three has, its entry is
  overwritten by the renamed duplicate and the Index holds two entries for three
  documents.
\<close>

theorem rebuildIndex_placeholder_taken:
  "map source [ex_doc_a, ex_doc_b, ex_doc_c] = [''DUPLICATE 1000000'', ''X 1'', ''X 1''] \<and>
   map desc [ex_doc_a, ex_doc_b, ex_doc_c] = [''First'', ''Second'', ''Third''] \<and>
   map fst (index (fst (rebuildIndex rnd_zero [ex_doc_a, ex_doc_b, ex_doc_c] ex_empty))) =
     [''DUPLICATE 1000000'', ''X 1''] \<and>
   map (\<lambda>kv. desc (snd kv)) (index (fst (rebuildIndex rnd_zero [ex_doc_a, ex_doc_b, ex_doc_c] ex_empty))) =
     [''Third'', ''Second''] \<and>
   snd (rebuildIndex rnd_zero [ex_doc_a, ex_doc_b, ex_doc_c] ex_empty) =
     [''X 1 is being repeated, replacing with DUPLICATE 1000000'']"
  by (simp add: rebuildIndex_def setEntireIndex_def index_setitem_def fake_source_zero entry_def
      ex_doc_a_def ex_doc_b_def ex_doc_c_def Let_def)

section \<open>Searching\<close>

lemma runSearch_refine_TypeError:
  "refine q \<Longrightarrow> store (cache st) \<noteq> [] \<Longrightarrow> runSearch S P OTIS q st = Inl TypeError"
  by (simp add: runSearch_def cache_values_def split: list.splits)

lemma runSearch_refine_empty:
  "refine q \<Longrightarrow> store (cache st) = [] \<Longrightarrow> runSearch S P OTIS q st = Inr ([], st)"
  by (simp add: runSearch_def cache_values_def Let_def)

lemma runSearch_full_index:
  "\<not> refine q \<Longrightarrow>
   runSearch S P OTIS q st =
     (if found S P OTIS q st = [] then Inr ([], st)
      else Inr (cache_entries (setCache (index_objects (index st)) (found S P OTIS q st)),
                st\<lparr>cache := setCache (index_objects (index st)) (found S P OTIS q st)\<rparr>))"
  by (simp add: runSearch_def found_def Let_def)

lemma distinct_found: "distinct (found S P OTIS q st)"
  by (simp add: found_def Let_def index_values_def)

lemma runSearch_result_cached:
  assumes "runSearch S P OTIS q st = Inr (result, st')"
  shows "index st' = index st \<and>
         (result \<noteq> [] \<longrightarrow>
            cache_entries (cache st') = result \<and>
            (\<forall>k<length result. i (result ! k) = Some (int k))) \<and>
         (result = [] \<longrightarrow> st' = st)"
proof (cases "refine q")
  case True
  show ?thesis
  proof (cases "store (cache st) = []")
    case True
    with \<open>refine q\<close> assms show ?thesis
      by (simp add: runSearch_refine_empty)
  next
    case False
    with \<open>refine q\<close> assms show ?thesis
      by (simp add: runSearch_refine_TypeError)
  qed
next
  case False
  let ?f = "found S P OTIS q st"
  let ?c = "setCache (index_objects (index st)) ?f"
  show ?thesis
  proof (cases "?f = []")
    case True
    with False assms show ?thesis
      by (simp add: runSearch_full_index)
  next
    case nonempty: False
    with False assms have r: "result = cache_entries ?c" and s: "st' = st\<lparr>cache := ?c\<rparr>"
      by (simp_all add: runSearch_full_index)
    have num: "cache_numbered ?c"
      by (simp add: setCache_def cache_set_numbered distinct_found)
    have len: "length (cache_entries ?c) = length (store ?c)"
      by (simp add: cache_entries_def)
    from nonempty have ne: "result \<noteq> []"
      by (simp add: r cache_entries_def setCache_def cache_set_def)
    from num have "\<forall>k<length (cache_entries ?c). i (cache_entries ?c ! k) = Some (int k)"
      by (simp add: cache_numbered_iff len)
    then have "\<forall>k<length result. i (result ! k) = Some (int k)"
      by (simp only: r)
    with r s ne show ?thesis by simp
  qed
qed


text \<open>
  C1. A search of the full Index always returns. Whenever \<^verbatim>\<open>runSearch\<close> returns its
  result, the Index is as it was. If the result is not empty, the Cache then holds
  exactly the returned list, and the entry at every place \<open>k\<close> of it carries the
  position \<open>k\<close> (shown as \<open>k + 1\<close>). If the result is empty, the state, and with it
  the Cache, is unchanged.
\<close>

theorem runSearch_caches_result:
  "(\<not> refine q \<longrightarrow> (\<exists>result st'. runSearch S P OTIS q st = Inr (result, st'))) \<and>
   (runSearch S P OTIS q st = Inr (result, st') \<longrightarrow>
      index st' = index st \<and>
      (result \<noteq> [] \<longrightarrow>
         cache_entries (cache st') = result \<and>
         (\<forall>k<length result. i (result ! k) = Some (int k))) \<and>
      (result = [] \<longrightarrow> st' = st))"
proof (intro conjI impI)
  assume "\<not> refine q"
  then show "\<exists>result st'. runSearch S P OTIS q st = Inr (result, st')"
    by (simp add: runSearch_full_index)
next
  assume r: "runSearch S P OTIS q st = Inr (result, st')"
  from runSearch_result_cached [OF r] show "index st' = index st"
    by blast
  from runSearch_result_cached [OF r] show "cache_entries (cache st') = result" if "result \<noteq> []"
    using that by blast
  from runSearch_result_cached [OF r] show "\<forall>k<length result. i (result ! k) = Some (int k)"
    if "result \<noteq> []"
    using that by blast
  from runSearch_result_cached [OF r] show "st' = st" if "result = []"
    using that by blast
qed

lemma found_scenario: "found ex_SORT_TAGS inferPUID_sample None ex_query ex_scenario = [0]"
  by code_simp

theorem runSearch_caches_result_witness:
  "runSearch ex_SORT_TAGS inferPUID_sample None ex_query ex_scenario =
     Inr ([ex_X1\<lparr>i := Some 0\<rparr>],
          ex_scenario\<lparr>cache := setCache (index_objects (index ex_scenario)) [0]\<rparr>) \<and>
   index (ex_scenario\<lparr>cache := setCache (index_objects (index ex_scenario)) [0]\<rparr>) =
     [(''X1'', ex_X1), (''X2'', ex_X2)] \<and>
   cache_entries (cache (ex_scenario\<lparr>cache := setCache (index_objects (index ex_scenario)) [0]\<rparr>)) =
     [ex_X1\<lparr>i := Some 0\<rparr>] \<and>
   i ([ex_X1\<lparr>i := Some 0\<rparr>] ! 0) = Some 0"
proof -
  let ?st' = "ex_scenario\<lparr>cache := setCache (index_objects (index ex_scenario)) [0]\<rparr>"
  have nr: "\<not> refine ex_query"
    by (simp add: ex_query_def query_default_def)
  have ent: "cache_entries (setCache (index_objects (index ex_scenario)) [0]) = [ex_X1\<lparr>i := Some 0\<rparr>]"
    by (simp add: cache_entries_def setCache_def cache_set_def index_objects_def ex_scenario_def)
  have run: "runSearch ex_SORT_TAGS inferPUID_sample None ex_query ex_scenario =
      Inr ([ex_X1\<lparr>i := Some 0\<rparr>], ?st')"
    by (simp add: runSearch_full_index [OF nr] found_scenario ent)
  have idx: "index ex_scenario = [(''X1'', ex_X1), (''X2'', ex_X2)]"
    by (simp add: ex_scenario_def)
  from runSearch_caches_result [of ex_query ex_SORT_TAGS inferPUID_sample None ex_scenario
      "[ex_X1\<lparr>i := Some 0\<rparr>]" ?st'] run
  have "cache_entries (cache ?st') = [ex_X1\<lparr>i := Some 0\<rparr>]"
    by blast
  with run idx show ?thesis
    by simp
qed

lemma insort_key_map:
  "map g (insort_key (\<lambda>a. f (g a)) x ys) = insort_key f (g x) (map g ys)"
  by (induction ys) simp_all

lemma sort_key_map: "map g (sort_key (\<lambda>a. f (g a)) xs) = sort_key f (map g xs)"
  by (induction xs) (simp_all add: insort_key_map)

lemma map_index_objects: "map (index_objects d) (index_values d) = map snd d"
  by (rule nth_equalityI) (simp_all add: index_values_def index_objects_def)

lemma map_found:
  "map (index_objects (index st)) (found S P OTIS q st) =
     (if alph_sort q then sort_key source else sort_key (sortkey S))
       (filter (matches P (otis_used_sources OTIS q) q) (map snd (index st)))"
proof -
  let ?h = "index_objects (index st)"
  let ?m = "matches P (otis_used_sources OTIS q) q"
  have f: "map ?h (filter (\<lambda>a. ?m (?h a)) (index_values (index st))) = filter ?m (map snd (index st))"
    by (simp add: filter_map comp_def map_index_objects [symmetric])
  show ?thesis
    by (simp add: found_def Let_def sort_key_map f)
qed

lemma runSearch_full_index_result:
  assumes "\<not> refine q"
  shows "\<exists>result st'. runSearch S P OTIS q st = Inr (result, st') \<and>
     map (\<lambda>v. v\<lparr>i := None\<rparr>) result =
       map (\<lambda>v. v\<lparr>i := None\<rparr>)
         ((if alph_sort q then sort_key source else sort_key (sortkey S))
            (filter (matches P (otis_used_sources OTIS q) q) (map snd (index st))))"
proof (cases "found S P OTIS q st = []")
  case True
  with map_found [of st S P OTIS q] assms show ?thesis
    by (simp add: runSearch_full_index)
next
  case False
  let ?h = "index_objects (index st)"
  let ?f = "found S P OTIS q st"
  have "map (\<lambda>v. v\<lparr>i := None\<rparr>) (cache_entries (setCache ?h ?f)) = map (\<lambda>v. v\<lparr>i := None\<rparr>) (map ?h ?f)"
    by (simp add: cache_entries_def setCache_def cache_set_def set_loop_frame)
  with False assms show ?thesis
    by (simp add: runSearch_full_index map_found)
qed

text \<open>
  C2. The claim asks a search of the current Cache to return the matching entries of the
  Cache. With \<^verbatim>\<open>refine\<close> the code iterates \<^verbatim>\<open>cache.values()\<close>, which raises \<^verbatim>\<open>TypeError\<close>
  as soon as the Cache holds an entry (\<open>runSearch_refine_TypeError\<close>); here it holds two.
  A search of the full Index does return the matching entries in the requested order
  (\<open>runSearch_full_index_result\<close>).
\<close>

theorem runSearch_refine_raises_TypeError:
  "refine ex_refine \<and> length (cache_entries (cache ex_scenario)) = 2 \<and>
   runSearch ex_SORT_TAGS inferPUID_sample None ex_refine ex_scenario = Inl TypeError"
proof -
  have r: "refine ex_refine"
    by (simp add: ex_refine_def query_default_def)
  have s: "store (cache ex_scenario) = [0, 1]"
    by (simp add: ex_scenario_def ex_cache_def cache_set_def)
  then have ne: "store (cache ex_scenario) \<noteq> []"
    by simp
  from runSearch_refine_TypeError [OF r ne] r s show ?thesis
    by (simp add: cache_entries_def)
qed

end
